theory Spec2Isabelle
  imports Main "HOL-Library.Sublist"
begin

section \<open>Shortify: the slug codec\<close>

text \<open>
  The handler of \<^verbatim>\<open>src/api/shorten.py\<close> turns a counter value into a slug
  with \<^verbatim>\<open>encode_base62\<close>. Python integers are unbounded, so the counter is an
  \<^typ>\<open>int\<close>; a Python \<^verbatim>\<open>str\<close> is a \<^typ>\<open>string\<close>.
\<close>

definition BASE62_CHARS :: string where
  "BASE62_CHARS = ''0123456789ABCDEFGHIJKLMNOPQRSTUVWXYZabcdefghijklmnopqrstuvwxyz''"

text \<open>
  The \<^verbatim>\<open>while num > 0\<close> loop of \<^verbatim>\<open>encode_base62\<close>: \<open>result\<close> grows at its end
  by the character of the least significant digit, and \<open>num\<close> is divided by 62.
  On a positive \<open>num\<close> Python's \<^verbatim>\<open>%\<close> and \<^verbatim>\<open>//\<close> are \<open>mod\<close> and \<open>div\<close>,
  and the index \<open>num mod 62\<close> is inside the 62 characters of the alphabet.
\<close>

function encode_loop :: "int \<Rightarrow> string \<Rightarrow> string" where
  "encode_loop num result =
     (if num > 0
      then encode_loop (num div 62) (result @ [BASE62_CHARS ! nat (num mod 62)])
      else result)"
  by pat_completeness auto
termination
  by (relation "measure (\<lambda>(num, result). nat num)") auto

text \<open>
  \<^verbatim>\<open>encode_base62\<close>: zero is answered at once, any other number runs the loop and
  joins the reversed list.
\<close>

definition encode_base62 :: "int \<Rightarrow> string" where
  "encode_base62 num =
     (if num = 0 then [BASE62_CHARS ! 0] else rev (encode_loop num []))"

text \<open>
  The digits of a number as the loop leaves them, most significant first. This is the
  second branch of \<open>encode_base62\<close> under a name, for the proofs.
\<close>

definition digits62 :: "int \<Rightarrow> string" where
  "digits62 num = rev (encode_loop num [])"

subsection \<open>Errors\<close>

text \<open>
  The error kinds of the service: a request that is not an http(s) URL, a string that is
  not a slug, and a failure of the key-value store, with the store's message.
\<close>

datatype error = InvalidInput | InvalidSlug | StoreUnavailable string

subsection \<open>Decoding\<close>

text \<open>
  Modelled from the spec: \<^verbatim>\<open>decode\<close>, which \<^verbatim>\<open>src/api/shorten.py\<close> does not
  contain. The specification describes it as the inverse of the encoder: the string is read
  most significant digit first, the value of a character is its position in the alphabet,
  and the empty string or a character outside the alphabet gives \<open>InvalidSlug\<close>.
\<close>

fun alphabet_position :: "char \<Rightarrow> string \<Rightarrow> nat option" where
  "alphabet_position c [] = None"
| "alphabet_position c (x # xs) =
     (if c = x then Some 0 else map_option Suc (alphabet_position c xs))"

fun decode_loop :: "int \<Rightarrow> string \<Rightarrow> error + int" where
  "decode_loop acc [] = Inr acc"
| "decode_loop acc (c # cs) =
     (case alphabet_position c BASE62_CHARS of
        None \<Rightarrow> Inl InvalidSlug
      | Some d \<Rightarrow> decode_loop (acc * 62 + int d) cs)"

definition decode_base62 :: "string \<Rightarrow> error + int" where
  "decode_base62 s = (if s = [] then Inl InvalidSlug else decode_loop 0 s)"

subsection \<open>String order\<close>

text \<open>
  The order of Python strings: code points are compared from the left, and a proper prefix
  is smaller.
\<close>

fun str_less :: "string \<Rightarrow> string \<Rightarrow> bool" where
  "str_less [] [] = False"
| "str_less [] (y # ys) = True"
| "str_less (x # xs) [] = False"
| "str_less (x # xs) (y # ys) =
     ((of_char x :: nat) < of_char y \<or> (x = y \<and> str_less xs ys))"

section \<open>The key-value store\<close>

text \<open>
  Modelled from the spec: the store behind \<^verbatim>\<open>upstash_redis.Redis\<close>, an external
  service. Its contract has three operations on one key space: \<open>INCR\<close> (increment and
  return the new value, an absent key counting as 0), \<open>GET\<close> (the string stored, or nothing)
  and \<open>SET\<close>. A key holds an integer once \<open>INCR\<close> has created it and a string once
  \<open>SET\<close> has written it; \<open>INCR\<close> on a string is refused.

  Two more fields make the store observable. \<open>calls\<close> is the log of every operation
  issued, in order. \<open>faults\<close> says which calls fail: when \<open>faults\<close> has a message for
  the position of a call in the log, that call changes nothing and raises the store's
  error with that message.
\<close>

datatype rvalue = VInt int | VStr string

datatype store_op = INCR string | GET string | SET string string

record store =
  data :: "string \<rightharpoonup> rvalue"
  calls :: "store_op list"
  faults :: "nat \<rightharpoonup> string"

text \<open>The decimal text that \<open>GET\<close> returns for a key holding an integer.\<close>

fun show_nat :: "nat \<Rightarrow> string" where
  "show_nat n =
     (if n < 10 then [char_of (48 + n)]
      else show_nat (n div 10) @ [char_of (48 + n mod 10)])"

declare show_nat.simps [simp del]

definition show_int :: "int \<Rightarrow> string" where
  "show_int i = (if i < 0 then CHR ''-'' # show_nat (nat (- i)) else show_nat (nat i))"

fun value_string :: "rvalue \<Rightarrow> string" where
  "value_string (VStr v) = v"
| "value_string (VInt n) = show_int n"

text \<open>
  Modelled from the spec: the three operations of the store contract, which the client
  library provides. Each one logs its call, fails when that call is scheduled to fail, and
  otherwise acts on \<open>data\<close>.
\<close>

definition redis_incr :: "string \<Rightarrow> store \<Rightarrow> (error + int) \<times> store" where
  "redis_incr key s =
     (let s' = s\<lparr>calls := calls s @ [INCR key]\<rparr> in
      case faults s (length (calls s)) of
        Some msg \<Rightarrow> (Inl (StoreUnavailable msg), s')
      | None \<Rightarrow>
          (case data s key of
             None \<Rightarrow> (Inr 1, s'\<lparr>data := (data s)(key \<mapsto> VInt 1)\<rparr>)
           | Some (VInt n) \<Rightarrow> (Inr (n + 1), s'\<lparr>data := (data s)(key \<mapsto> VInt (n + 1))\<rparr>)
           | Some (VStr v) \<Rightarrow>
               (Inl (StoreUnavailable ''ERR value is not an integer or out of range''), s')))"

definition redis_get :: "string \<Rightarrow> store \<Rightarrow> (error + string option) \<times> store" where
  "redis_get key s =
     (let s' = s\<lparr>calls := calls s @ [GET key]\<rparr> in
      case faults s (length (calls s)) of
        Some msg \<Rightarrow> (Inl (StoreUnavailable msg), s')
      | None \<Rightarrow>
          (Inr (map_option value_string (data s key)), s'))"

definition redis_set :: "string \<Rightarrow> string \<Rightarrow> store \<Rightarrow> (error + unit) \<times> store" where
  "redis_set key val s =
     (let s' = s\<lparr>calls := calls s @ [SET key val]\<rparr> in
      case faults s (length (calls s)) of
        Some msg \<Rightarrow> (Inl (StoreUnavailable msg), s')
      | None \<Rightarrow> (Inr (), s'\<lparr>data := (data s)(key \<mapsto> VStr val)\<rparr>))"

text \<open>The key an operation is issued on.\<close>

fun op_key :: "store_op \<Rightarrow> string" where
  "op_key (INCR k) = k"
| "op_key (GET k) = k"
| "op_key (SET k v) = k"

section \<open>The handler\<close>

record ShortenRequest =
  url :: string

record ShortenResponse =
  short_url :: string
  slug :: string
  original_url :: string

text \<open>\<^verbatim>\<open>get_next_counter\<close> increments the counter key and returns the new value.\<close>

definition get_next_counter :: "store \<Rightarrow> (error + int) \<times> store" where
  "get_next_counter s = redis_incr ''shortify:counter'' s"

text \<open>
  The test \<^verbatim>\<open>if existing_slug:\<close> on the result of \<open>GET\<close>: Python takes \<^verbatim>\<open>None\<close>
  and the empty string as false, every other string as true.
\<close>

definition truthy :: "string option \<Rightarrow> bool" where
  "truthy v = (v \<noteq> None \<and> v \<noteq> Some [])"

text \<open>
  \<^verbatim>\<open>shorten_url\<close>. The request carries the URL; \<^verbatim>\<open>str(request.url)\<close> is the field
  \<open>url\<close>. The framework checks the body against \<^verbatim>\<open>ShortenRequest\<close> before it
  calls the handler; that check is done by pydantic's \<^verbatim>\<open>HttpUrl\<close>, outside the source,
  and is not part of this development. The function \<^verbatim>\<open>is_valid_url\<close> of the source is
  never called. A store call that raises ends the handler with that error, since the source
  has no \<^verbatim>\<open>try\<close>; the state reached so far is kept, as the store keeps the writes
  already made.
\<close>

definition shorten_url :: "ShortenRequest \<Rightarrow> store \<Rightarrow> (error + ShortenResponse) \<times> store" where
  "shorten_url request s =
     (let original_url = url request in
      case redis_get (''shortify:url:'' @ original_url) s of
        (Inl e, s1) \<Rightarrow> (Inl e, s1)
      | (Inr existing_slug, s1) \<Rightarrow>
          if truthy existing_slug
          then (Inr \<lparr>short_url = ''/'' @ the existing_slug, slug = the existing_slug,
                     original_url = original_url\<rparr>, s1)
          else
            (case get_next_counter s1 of
               (Inl e, s2) \<Rightarrow> (Inl e, s2)
             | (Inr counter, s2) \<Rightarrow>
                 (let slug = encode_base62 counter in
                  case redis_set (''shortify:slug:'' @ slug) original_url s2 of
                    (Inl e, s3) \<Rightarrow> (Inl e, s3)
                  | (Inr _, s3) \<Rightarrow>
                      (case redis_set (''shortify:url:'' @ original_url) slug s3 of
                         (Inl e, s4) \<Rightarrow> (Inl e, s4)
                       | (Inr _, s4) \<Rightarrow>
                           (Inr \<lparr>short_url = ''/'' @ slug, slug = slug,
                                  original_url = original_url\<rparr>, s4)))))"

subsection \<open>The keys\<close>

abbreviation url_key :: "string \<Rightarrow> string" where
  "url_key u \<equiv> ''shortify:url:'' @ u"

abbreviation slug_key :: "string \<Rightarrow> string" where
  "slug_key sl \<equiv> ''shortify:slug:'' @ sl"

abbreviation counter_key :: string where
  "counter_key \<equiv> ''shortify:counter''"

subsection \<open>Reachable stores\<close>

text \<open>
  The stores the service can be in: it starts on a store that holds nothing under the
  prefix of the service (other data may be there, and any calls may fail), and every
  request, whatever its outcome, leads to the next store.
\<close>

inductive reachable :: "store \<Rightarrow> bool" where
  init: "(\<And>k. prefix ''shortify:'' k \<Longrightarrow> d k = None) \<Longrightarrow>
         reachable \<lparr>data = d, calls = c, faults = f\<rparr>"
| step: "reachable s \<Longrightarrow> reachable (snd (shorten_url request s))"

text \<open>A sequence of requests served one after the other, whatever their outcomes.\<close>

fun serve :: "ShortenRequest list \<Rightarrow> store \<Rightarrow> store" where
  "serve [] s = s"
| "serve (request # requests) s = serve requests (snd (shorten_url request s))"

subsection \<open>Consistent stores\<close>

text \<open>
  The value of the counter, 0 before it exists, and the invariant of the mappings: the
  counter is at least 1 once created; every forward entry is for the slug of a counter
  value already issued; every reverse entry holds such a slug, whose forward entry holds
  the URL.
\<close>

definition counter_value :: "store \<Rightarrow> int" where
  "counter_value s = (case data s ''shortify:counter'' of Some (VInt n) \<Rightarrow> n | _ \<Rightarrow> 0)"

definition consistent :: "store \<Rightarrow> bool" where
  "consistent s \<longleftrightarrow>
     (data s counter_key = None \<or> (\<exists>n. data s counter_key = Some (VInt n) \<and> 1 \<le> n)) \<and>
     (\<forall>sl v. data s (slug_key sl) = Some v \<longrightarrow>
        (\<exists>c u. 1 \<le> c \<and> c \<le> counter_value s \<and> sl = encode_base62 c \<and> v = VStr u)) \<and>
     (\<forall>u v. data s (url_key u) = Some v \<longrightarrow>
        (\<exists>c. 1 \<le> c \<and> c \<le> counter_value s \<and> v = VStr (encode_base62 c) \<and>
             data s (slug_key (encode_base62 c)) = Some (VStr u)))"

subsection \<open>Sample requests and stores\<close>

definition empty_store :: store where
  "empty_store = \<lparr>data = Map.empty, calls = [], faults = Map.empty\<rparr>"

definition sample_a :: ShortenRequest where
  "sample_a = \<lparr>url = ''https://example.com/a''\<rparr>"

definition sample_b :: ShortenRequest where
  "sample_b = \<lparr>url = ''https://example.com/b''\<rparr>"

definition sample_c :: ShortenRequest where
  "sample_c = \<lparr>url = ''https://example.com/c''\<rparr>"

definition store_a :: store where
  "store_a = snd (shorten_url sample_a empty_store)"

definition store_ab :: store where
  "store_ab = snd (shorten_url sample_b store_a)"

definition store_abc :: store where
  "store_abc = snd (shorten_url sample_c store_ab)"

definition store_a_read :: store where
  "store_a_read = store_a\<lparr>calls := calls store_a @ [GET (url_key (url sample_a))]\<rparr>"

text \<open>
  A store whose call number \<open>k\<close> fails, with the stores a request for the first sample
  leaves after its lookup, its increment and its first write; and a store whose counter key
  holds text.
\<close>

definition store_failing :: "nat \<Rightarrow> store" where
  "store_failing k = empty_store\<lparr>faults := [k \<mapsto> ''timeout'']\<rparr>"

definition after_get :: "nat \<Rightarrow> store" where
  "after_get k = snd (redis_get (url_key (url sample_a)) (store_failing k))"

definition after_incr :: "nat \<Rightarrow> store" where
  "after_incr k = snd (redis_incr counter_key (after_get k))"

definition after_set :: "nat \<Rightarrow> store" where
  "after_set k = snd (redis_set (slug_key (encode_base62 1)) (url sample_a) (after_incr k))"

definition store_text_counter :: store where
  "store_text_counter = empty_store\<lparr>data := [counter_key \<mapsto> VStr ''n/a'']\<rparr>"

section \<open>Properties of the codec\<close>

lemma length_BASE62_CHARS: "length BASE62_CHARS = 62"
  by (simp add: BASE62_CHARS_def)

lemma distinct_BASE62_CHARS: "distinct BASE62_CHARS"
  by (simp add: BASE62_CHARS_def)

lemma codes_BASE62_CHARS:
  "map of_char BASE62_CHARS = [48 ..< 58] @ [65 ..< 91] @ [97 ..< (123::nat)]"
  by (simp add: BASE62_CHARS_def upt_rec)

lemma sorted_BASE62_CHARS: "sorted_wrt (<) (map of_char BASE62_CHARS :: nat list)"
  unfolding codes_BASE62_CHARS by (simp add: sorted_wrt_append)

text \<open>The accumulator of the loop is a prefix of its result.\<close>

lemma encode_loop_acc: "encode_loop num result = result @ encode_loop num []"
proof (induction "nat num" arbitrary: num result rule: less_induct)
  case less
  show ?case
  proof (cases "num > 0")
    case True
    let ?c = "BASE62_CHARS ! nat (num mod 62)"
    have smaller: "nat (num div 62) < nat num"
      using True by (simp add: zdiv_mono2_neg nat_less_iff) 
    have "encode_loop num result = encode_loop (num div 62) (result @ [?c])"
      using True by simp
    also have "\<dots> = (result @ [?c]) @ encode_loop (num div 62) []"
      by (rule less [OF smaller])
    also have "\<dots> = result @ encode_loop (num div 62) [?c]"
      using less [OF smaller, of "[?c]"] by simp
    also have "\<dots> = result @ encode_loop num []"
      using True by simp
    finally show ?thesis .
  next
    case False
    then show ?thesis by simp
  qed
qed

lemma digits62_nonpos: "num \<le> 0 \<Longrightarrow> digits62 num = []"
  by (simp add: digits62_def)

lemma digits62_pos:
  "0 < num \<Longrightarrow> digits62 num = digits62 (num div 62) @ [BASE62_CHARS ! nat (num mod 62)]"
proof -
  assume pos: "0 < num"
  have "encode_loop num [] = encode_loop (num div 62) [BASE62_CHARS ! nat (num mod 62)]"
    using pos by simp
  also have "\<dots> = [BASE62_CHARS ! nat (num mod 62)] @ encode_loop (num div 62) []"
    by (rule encode_loop_acc)
  finally show ?thesis by (simp add: digits62_def)
qed

lemma encode_base62_digits:
  "encode_base62 num = (if num = 0 then [BASE62_CHARS ! 0] else digits62 num)"
  by (simp add: encode_base62_def digits62_def)

lemma div62_smaller: "0 < num \<Longrightarrow> nat (num div 62) < nat num"
  by (simp add: nat_less_iff)

lemma digits62_eq_Nil: "digits62 num = [] \<longleftrightarrow> num \<le> 0"
proof (cases "0 < num")
  case True
  then show ?thesis by (simp add: digits62_pos)
next
  case False
  then show ?thesis by (simp add: digits62_nonpos)
qed

lemma encode_base62_nonempty: "0 \<le> num \<Longrightarrow> encode_base62 num \<noteq> []"
  by (simp add: encode_base62_digits digits62_eq_Nil)

lemma encode_base62_1: "encode_base62 1 = ''1''"
  by (simp add: encode_base62_def BASE62_CHARS_def)

lemma encode_base62_2: "encode_base62 2 = ''2''"
  by (simp add: encode_base62_def BASE62_CHARS_def)

lemma encode_base62_3: "encode_base62 3 = ''3''"
  by (simp add: encode_base62_def BASE62_CHARS_def)

subsection \<open>Decoding inverts encoding\<close>

lemma alphabet_position_nth:
  "distinct xs \<Longrightarrow> k < length xs \<Longrightarrow> alphabet_position (xs ! k) xs = Some k"
proof (induction xs arbitrary: k)
  case Nil
  then show ?case by simp
next
  case (Cons x xs)
  then show ?case by (cases k) auto
qed

lemma alphabet_position_digit:
  "0 \<le> d \<Longrightarrow> d < 62 \<Longrightarrow> alphabet_position (BASE62_CHARS ! nat d) BASE62_CHARS = Some (nat d)"
  by (rule alphabet_position_nth [OF distinct_BASE62_CHARS]) (simp add: length_BASE62_CHARS)

lemma decode_loop_append:
  "decode_loop acc (xs @ ys) =
     (case decode_loop acc xs of Inl e \<Rightarrow> Inl e | Inr a \<Rightarrow> decode_loop a ys)"
  by (induction xs arbitrary: acc) (auto split: option.splits)

lemma decode_loop_digits62: "0 \<le> num \<Longrightarrow> decode_loop 0 (digits62 num) = Inr num"
proof (induction "nat num" arbitrary: num rule: less_induct)
  case less
  show ?case
  proof (cases "num = 0")
    case True
    then show ?thesis by (simp add: digits62_nonpos)
  next
    case False
    with less.prems have pos: "0 < num" by simp
    have IH: "decode_loop 0 (digits62 (num div 62)) = Inr (num div 62)"
      using less.hyps [OF div62_smaller [OF pos]] pos by simp
    have "alphabet_position (BASE62_CHARS ! nat (num mod 62)) BASE62_CHARS = Some (nat (num mod 62))"
      by (rule alphabet_position_digit) simp_all
    then show ?thesis
      using pos IH by (simp add: digits62_pos decode_loop_append)
  qed
qed

lemma digits62_inj:
  "0 \<le> m \<Longrightarrow> 0 \<le> n \<Longrightarrow> digits62 m = digits62 n \<Longrightarrow> m = n"
proof -
  assume m: "0 \<le> m" and n: "0 \<le> n" and eq: "digits62 m = digits62 n"
  have "(Inr m :: error + int) = decode_loop 0 (digits62 m)"
    using m by (simp add: decode_loop_digits62)
  also have "\<dots> = decode_loop 0 (digits62 n)"
    by (simp only: eq)
  also have "\<dots> = Inr n"
    using n by (simp add: decode_loop_digits62)
  finally show "m = n" by simp
qed

text \<open>
  Claim C1. Decoding the slug of a non-negative number gives the number back: for every
  \<open>n \<ge> 0\<close>, and so for every \<open>n\<close> up to 10,000,000, \<open>decode (encode n) = n\<close>.
\<close>

theorem decode_encode_roundtrip: "0 \<le> n \<Longrightarrow> decode_base62 (encode_base62 n) = Inr n"
proof (cases "n = 0")
  case True
  have "alphabet_position (BASE62_CHARS ! nat 0) BASE62_CHARS = Some (nat 0)"
    by (rule alphabet_position_digit) simp_all
  then show ?thesis
    using True by (simp add: decode_base62_def encode_base62_digits)
next
  case False
  assume "0 \<le> n"
  with False show ?thesis
    by (simp add: decode_base62_def encode_base62_digits digits62_eq_Nil decode_loop_digits62)
qed

theorem decode_encode_roundtrip_witness:
  "(0::int) \<le> 10000000 \<and> decode_base62 (encode_base62 10000000) = Inr 10000000"
  using decode_encode_roundtrip [of 10000000] by simp

text \<open>The decoder refuses the empty string and any string with a foreign character.\<close>

lemma alphabet_position_None: "alphabet_position c xs = None \<longleftrightarrow> c \<notin> set xs"
  by (induction xs) auto

lemma decode_loop_invalid:
  "c \<in> set s \<Longrightarrow> c \<notin> set BASE62_CHARS \<Longrightarrow> decode_loop acc s = Inl InvalidSlug"
proof (induction s arbitrary: acc)
  case Nil
  then show ?case by simp
next
  case (Cons x xs)
  show ?case
  proof (cases "alphabet_position x BASE62_CHARS")
    case None
    then show ?thesis by simp
  next
    case (Some d)
    then have "x \<in> set BASE62_CHARS"
      using alphabet_position_None [of x BASE62_CHARS] by auto
    with Cons.prems have "c \<in> set xs" by auto
    then show ?thesis
      using Some Cons.IH Cons.prems by simp
  qed
qed

lemma decode_base62_invalid:
  "s = [] \<or> (\<exists>c \<in> set s. c \<notin> set BASE62_CHARS) \<Longrightarrow> decode_base62 s = Inl InvalidSlug"
  by (auto simp: decode_base62_def decode_loop_invalid)

text \<open>Without the decoder: two non-negative numbers with the same slug are equal.\<close>

lemma hd_digits62: "0 < num \<Longrightarrow> hd (digits62 num) \<noteq> BASE62_CHARS ! 0"
proof (induction "nat num" arbitrary: num rule: less_induct)
  case less
  note pos = \<open>0 < num\<close>
  show ?case
  proof (cases "num < 62")
    case True
    then have d: "num div 62 = 0" "num mod 62 = num"
      using pos by simp_all
    have "nat num < length BASE62_CHARS" "0 < nat num"
      using True pos by (simp_all add: length_BASE62_CHARS)
    then have "BASE62_CHARS ! nat num \<noteq> BASE62_CHARS ! 0"
      using distinct_BASE62_CHARS by (simp add: nth_eq_iff_index_eq length_BASE62_CHARS)
    then show ?thesis
      using pos d by (simp add: digits62_pos digits62_nonpos)
  next
    case False
    then have q: "0 < num div 62" by simp
    then have "digits62 (num div 62) \<noteq> []"
      by (simp add: digits62_eq_Nil)
    moreover have "hd (digits62 (num div 62)) \<noteq> BASE62_CHARS ! 0"
      using less.hyps [OF div62_smaller [OF pos] q] .
    ultimately show ?thesis
      using pos by (simp add: digits62_pos)
  qed
qed

lemma encode_base62_inj:
  assumes "0 \<le> m" "0 \<le> n" "encode_base62 m = encode_base62 n"
  shows "m = n"
proof -
  have zero: "\<And>k. 0 < k \<Longrightarrow> digits62 k \<noteq> [BASE62_CHARS ! 0]"
  proof
    fix k :: int
    assume "0 < k" and "digits62 k = [BASE62_CHARS ! 0]"
    then show False using hd_digits62 [of k] by simp
  qed
  show ?thesis
  proof (cases "m = 0 \<or> n = 0")
    case True
    then show ?thesis
      using assms zero [of m] zero [of n]
      by (auto simp: encode_base62_digits split: if_splits)
  next
    case False
    then show ?thesis
      using assms by (auto simp: encode_base62_digits intro: digits62_inj)
  qed
qed

lemma encode_base62_older:
  "1 \<le> c' \<Longrightarrow> c' \<le> n \<Longrightarrow> encode_base62 c' \<noteq> encode_base62 (n + 1)"
proof
  assume "1 \<le> c'" "c' \<le> n" "encode_base62 c' = encode_base62 (n + 1)"
  then have "c' = n + 1" by (intro encode_base62_inj) simp_all
  with \<open>c' \<le> n\<close> show False by simp
qed

subsection \<open>Test vectors\<close>

text \<open>
  Claim C2, as amended. The docstring lists four vectors. Three hold as written: 0 is
  encoded as "0", 61 as "z" and 62 as "10". The fourth does not: 1000 is 16 * 62 + 8, and
  position 16 of the alphabet (digits, then upper case, then lower case) is the upper-case
  "G", so 1000 is encoded as "G8".
\<close>

theorem encode_base62_vectors:
  "encode_base62 0 = ''0'' \<and> encode_base62 61 = ''z'' \<and>
   encode_base62 62 = ''10'' \<and> encode_base62 1000 = ''G8''"
  by (simp add: encode_base62_def BASE62_CHARS_def)

text \<open>The vector of the docstring for 1000, "g8", is not what the function returns.\<close>

theorem encode_base62_1000_counterexample:
  "\<not> (encode_base62 0 = ''0'' \<and> encode_base62 61 = ''z'' \<and>
      encode_base62 62 = ''10'' \<and> encode_base62 1000 = ''g8'')"
  by (simp add: encode_base62_def BASE62_CHARS_def)

subsection \<open>Length and order\<close>

lemma length_digits62_pos:
  "0 < num \<Longrightarrow> length (digits62 num) = Suc (length (digits62 (num div 62)))"
  by (simp add: digits62_pos)

lemma length_digits62_mono: "m \<le> n \<Longrightarrow> length (digits62 m) \<le> length (digits62 n)"
proof (induction "nat n" arbitrary: m n rule: less_induct)
  case less
  show ?case
  proof (cases "0 < m")
    case False
    then show ?thesis by (simp add: digits62_nonpos)
  next
    case True
    with less.prems have n: "0 < n" by simp
    have "m div 62 \<le> n div 62"
      using less.prems by (rule zdiv_mono1) simp
    then have "length (digits62 (m div 62)) \<le> length (digits62 (n div 62))"
      using less.hyps [OF div62_smaller [OF n]] by simp
    then show ?thesis
      using True n by (simp add: length_digits62_pos)
  qed
qed

lemma str_less_snoc:
  "length xs = length ys \<Longrightarrow>
   str_less (xs @ [a]) (ys @ [b]) \<longleftrightarrow>
     str_less xs ys \<or> (xs = ys \<and> (of_char a :: nat) < of_char b)"
proof (induction xs ys rule: list_induct2)
  case Nil
  then show ?case by auto
next
  case (Cons x xs y ys)
  then show ?case by auto
qed

lemma digit_char_less:
  assumes "0 \<le> i" "i < 62" "0 \<le> j" "j < 62"
  shows "(of_char (BASE62_CHARS ! nat i) :: nat) < of_char (BASE62_CHARS ! nat j) \<longleftrightarrow> i < j"
proof -
  let ?cs = "map of_char BASE62_CHARS :: nat list"
  have len: "nat i < length ?cs" "nat j < length ?cs"
    using assms by (simp_all add: length_BASE62_CHARS)
  have mono: "\<And>a b. a < b \<Longrightarrow> b < length ?cs \<Longrightarrow> ?cs ! a < ?cs ! b"
    using sorted_BASE62_CHARS by (simp add: sorted_wrt_iff_nth_less)
  have "?cs ! nat i < ?cs ! nat j \<longleftrightarrow> nat i < nat j"
  proof
    assume lt: "?cs ! nat i < ?cs ! nat j"
    show "nat i < nat j"
    proof (rule ccontr)
      assume "\<not> nat i < nat j"
      then have "nat j = nat i \<or> nat j < nat i" by auto
      then show False
        using lt mono [of "nat j" "nat i"] len by auto
    qed
  next
    assume "nat i < nat j"
    then show "?cs ! nat i < ?cs ! nat j" using mono len by simp
  qed
  then show ?thesis
    using assms len by (auto simp add: length_BASE62_CHARS)
qed

lemma str_less_digits62:
  "0 \<le> m \<Longrightarrow> 0 \<le> n \<Longrightarrow> length (digits62 m) = length (digits62 n) \<Longrightarrow>
   str_less (digits62 m) (digits62 n) \<longleftrightarrow> m < n"
proof (induction "nat n" arbitrary: m n rule: less_induct)
  case less
  show ?case
  proof (cases "0 < n")
    case False
    then have "digits62 n = []" by (simp add: digits62_nonpos)
    moreover from this less.prems have "digits62 m = []" by simp
    moreover from this have "m \<le> 0" by (simp add: digits62_eq_Nil)
    ultimately show ?thesis using False less.prems by simp
  next
    case True
    then have "digits62 n \<noteq> []" by (simp add: digits62_eq_Nil)
    with less.prems have "digits62 m \<noteq> []" by auto
    then have m: "0 < m" using digits62_eq_Nil [of m] by simp
    let ?m = "m div 62" and ?n = "n div 62"
    have len: "length (digits62 ?m) = length (digits62 ?n)"
      using less.prems True m by (simp add: length_digits62_pos)
    have q: "0 \<le> ?m" "0 \<le> ?n" using True m by simp_all
    have IH: "str_less (digits62 ?m) (digits62 ?n) \<longleftrightarrow> ?m < ?n"
      using less.hyps [OF div62_smaller [OF True] q len] .
    have same: "digits62 ?m = digits62 ?n \<longleftrightarrow> ?m = ?n"
      using digits62_inj [OF q] by auto
    have chars: "(of_char (BASE62_CHARS ! nat (m mod 62)) :: nat)
                   < of_char (BASE62_CHARS ! nat (n mod 62)) \<longleftrightarrow> m mod 62 < n mod 62"
      by (rule digit_char_less) simp_all
    have "str_less (digits62 m) (digits62 n) \<longleftrightarrow>
            str_less (digits62 ?m @ [BASE62_CHARS ! nat (m mod 62)])
                     (digits62 ?n @ [BASE62_CHARS ! nat (n mod 62)])"
      by (simp only: digits62_pos [OF True] digits62_pos [OF m])
    also have "\<dots> \<longleftrightarrow> ?m < ?n \<or> (?m = ?n \<and> m mod 62 < n mod 62)"
      by (simp only: str_less_snoc [OF len] IH same chars)
    also have "\<dots> \<longleftrightarrow> m < n"
    proof -
      have "m = 62 * ?m + m mod 62" "n = 62 * ?n + n mod 62" by simp_all
      moreover have "0 \<le> m mod 62" "m mod 62 < 62" "0 \<le> n mod 62" "n mod 62 < 62"
        by simp_all
      ultimately show ?thesis by linarith
    qed
    finally show ?thesis .
  qed
qed

text \<open>
  Claim C5. For non-negative \<open>m < n\<close> the slug of \<open>m\<close> is not longer than the slug of
  \<open>n\<close>; the slug of 61 has one character and the slug of 62 has two; and two slugs of the
  same length are in the order of their numbers.
\<close>

theorem encode_base62_order:
  "(0 \<le> m \<and> m < n \<longrightarrow> length (encode_base62 m) \<le> length (encode_base62 n)) \<and>
   length (encode_base62 61) = 1 \<and> length (encode_base62 62) = 2 \<and>
   (0 \<le> m \<and> 0 \<le> n \<and> length (encode_base62 m) = length (encode_base62 n) \<longrightarrow>
      (str_less (encode_base62 m) (encode_base62 n) \<longleftrightarrow> m < n))"
proof (intro conjI impI)
  assume "0 \<le> m \<and> m < n"
  then have "0 < n" "m \<le> n" by simp_all
  then have "length (digits62 m) \<le> length (digits62 n)" "digits62 n \<noteq> []"
    by (simp_all add: length_digits62_mono digits62_eq_Nil)
  then show "length (encode_base62 m) \<le> length (encode_base62 n)"
    using \<open>0 < n\<close> by (cases "digits62 n") (simp_all add: encode_base62_digits)
next
  show "length (encode_base62 61) = 1" "length (encode_base62 62) = 2"
    by (simp_all add: encode_base62_def)
next
  assume a: "0 \<le> m \<and> 0 \<le> n \<and> length (encode_base62 m) = length (encode_base62 n)"
  have single: "\<And>k. 0 < k \<Longrightarrow> length (digits62 k) = 1 \<Longrightarrow>
                  digits62 k = [BASE62_CHARS ! nat k] \<and> k < 62"
  proof -
    fix k :: int
    assume k: "0 < k" and "length (digits62 k) = 1"
    then have "digits62 (k div 62) = []" by (simp add: length_digits62_pos)
    then have "k div 62 \<le> 0" by (simp add: digits62_eq_Nil)
    then have "k < 62" using k by simp
    then show "digits62 k = [BASE62_CHARS ! nat k] \<and> k < 62"
      using k by (simp add: digits62_pos digits62_nonpos)
  qed
  have zero_less: "\<And>k. 0 < k \<Longrightarrow> k < 62 \<Longrightarrow>
        (of_char (BASE62_CHARS ! 0) :: nat) < of_char (BASE62_CHARS ! nat k)"
    using digit_char_less [of 0] by simp
  have less_zero: "\<And>k. 0 < k \<Longrightarrow> k < 62 \<Longrightarrow>
        \<not> (of_char (BASE62_CHARS ! nat k) :: nat) < of_char (BASE62_CHARS ! 0)"
    using digit_char_less [of _ 0] by simp
  show "str_less (encode_base62 m) (encode_base62 n) \<longleftrightarrow> m < n"
  proof (cases "m = 0 \<or> n = 0")
    case False
    then show ?thesis
      using a by (simp add: encode_base62_digits str_less_digits62)
  next
    case True
    then show ?thesis
      using a single [of m] single [of n] zero_less [of n] less_zero [of m]
      by (auto simp: encode_base62_digits split: if_splits)
  qed
qed

theorem encode_base62_order_witness:
  "(0::int) \<le> 62 \<and> (62::int) < 1000 \<and> (0::int) \<le> 1000 \<and>
   length (encode_base62 62) = length (encode_base62 1000) \<and>
   length (encode_base62 62) \<le> length (encode_base62 1000) \<and>
   str_less (encode_base62 62) (encode_base62 1000)"
  using encode_base62_order [of 62 1000]
  by (simp add: encode_base62_def)

subsection \<open>No leading zero\<close>

text \<open>
  Claim C6. The slug of 0 is the first character of the alphabet alone, not the empty
  string; and the slug of a non-negative number is never empty and starts with that
  character only when it is that one character.
\<close>

theorem encode_base62_no_leading_zero:
  "encode_base62 0 = [BASE62_CHARS ! 0] \<and>
   (0 \<le> n \<longrightarrow> encode_base62 n \<noteq> [] \<and>
      (\<forall>rest. encode_base62 n = BASE62_CHARS ! 0 # rest \<longrightarrow> rest = []))"
proof (intro conjI impI allI)
  show "encode_base62 0 = [BASE62_CHARS ! 0]"
    by (simp add: encode_base62_def)
next
  assume "0 \<le> n"
  then show "encode_base62 n \<noteq> []" by (rule encode_base62_nonempty)
next
  fix rest
  assume n: "0 \<le> n" and lead: "encode_base62 n = BASE62_CHARS ! 0 # rest"
  show "rest = []"
  proof (cases "n = 0")
    case True
    with lead show ?thesis by (simp add: encode_base62_def)
  next
    case False
    with n have "0 < n" by simp
    then have "hd (digits62 n) \<noteq> BASE62_CHARS ! 0" by (rule hd_digits62)
    with lead False show ?thesis by (simp add: encode_base62_digits)
  qed
qed

theorem encode_base62_no_leading_zero_witness:
  "(0::int) \<le> 0 \<and> encode_base62 0 = BASE62_CHARS ! 0 # [] \<and> encode_base62 0 \<noteq> []"
  using encode_base62_no_leading_zero [of 0] by simp

subsection \<open>Negative numbers\<close>

text \<open>
  Claim C10. A negative argument is not zero and does not enter the loop: the function
  returns the empty string, and no error.
\<close>

theorem encode_base62_negative: "num < 0 \<Longrightarrow> encode_base62 num = []"
  by (simp add: encode_base62_def)

theorem encode_base62_negative_witness:
  "(-5::int) < 0 \<and> encode_base62 (-5) = []"
  using encode_base62_negative [of "-5"] by simp

section \<open>Properties of the handler\<close>

text \<open>
  Every run of the handler ends in one of six ways: the lookup fails, the URL has a slug
  already, the counter fails, the first write fails, the second write fails, or a new slug
  is stored. Each case names the result and the store left behind.
\<close>

lemmas store_defs = redis_get_def redis_set_def redis_incr_def get_next_counter_def

lemma shorten_url_cases [consumes 1, case_names get_failed existing incr_failed set_slug_failed set_url_failed minted]:
  assumes run: "shorten_url request s = (r, s')"
  obtains
    (get_failed) msg where
      "faults s (length (calls s)) = Some msg"
      "r = Inl (StoreUnavailable msg)"
      "s' = s\<lparr>calls := calls s @ [GET (url_key (url request))]\<rparr>"
  | (existing) v where
      "faults s (length (calls s)) = None"
      "data s (url_key (url request)) = Some v" "value_string v \<noteq> []"
      "r = Inr \<lparr>short_url = ''/'' @ value_string v, slug = value_string v,
                 original_url = url request\<rparr>"
      "s' = s\<lparr>calls := calls s @ [GET (url_key (url request))]\<rparr>"
  | (incr_failed) e where
      "faults s (length (calls s)) = None"
      "\<not> truthy (map_option value_string (data s (url_key (url request))))"
      "faults s (Suc (length (calls s))) = Some e \<or>
       (faults s (Suc (length (calls s))) = None \<and> (\<exists>v. data s counter_key = Some (VStr v)) \<and>
        e = ''ERR value is not an integer or out of range'')"
      "r = Inl (StoreUnavailable e)"
      "s' = s\<lparr>calls := calls s @ [GET (url_key (url request)), INCR counter_key]\<rparr>"
  | (set_slug_failed) counter msg where
      "faults s (length (calls s)) = None"
      "\<not> truthy (map_option value_string (data s (url_key (url request))))"
      "faults s (Suc (length (calls s))) = None"
      "data s counter_key = None \<and> counter = 1 \<or>
       (\<exists>n. data s counter_key = Some (VInt n) \<and> counter = n + 1)"
      "faults s (Suc (Suc (length (calls s)))) = Some msg"
      "r = Inl (StoreUnavailable msg)"
      "s' = s\<lparr>calls := calls s @ [GET (url_key (url request)), INCR counter_key,
                                     SET (slug_key (encode_base62 counter)) (url request)],
               data := (data s)(counter_key \<mapsto> VInt counter)\<rparr>"
  | (set_url_failed) counter msg where
      "faults s (length (calls s)) = None"
      "\<not> truthy (map_option value_string (data s (url_key (url request))))"
      "faults s (Suc (length (calls s))) = None"
      "data s counter_key = None \<and> counter = 1 \<or>
       (\<exists>n. data s counter_key = Some (VInt n) \<and> counter = n + 1)"
      "faults s (Suc (Suc (length (calls s)))) = None"
      "faults s (Suc (Suc (Suc (length (calls s))))) = Some msg"
      "r = Inl (StoreUnavailable msg)"
      "s' = s\<lparr>calls := calls s @ [GET (url_key (url request)), INCR counter_key,
                                     SET (slug_key (encode_base62 counter)) (url request),
                                     SET (url_key (url request)) (encode_base62 counter)],
               data := (data s)(counter_key \<mapsto> VInt counter,
                                slug_key (encode_base62 counter) \<mapsto> VStr (url request))\<rparr>"
  | (minted) counter where
      "faults s (length (calls s)) = None"
      "\<not> truthy (map_option value_string (data s (url_key (url request))))"
      "faults s (Suc (length (calls s))) = None"
      "data s counter_key = None \<and> counter = 1 \<or>
       (\<exists>n. data s counter_key = Some (VInt n) \<and> counter = n + 1)"
      "faults s (Suc (Suc (length (calls s)))) = None"
      "faults s (Suc (Suc (Suc (length (calls s))))) = None"
      "r = Inr \<lparr>short_url = ''/'' @ encode_base62 counter, slug = encode_base62 counter,
                 original_url = url request\<rparr>"
      "s' = s\<lparr>calls := calls s @ [GET (url_key (url request)), INCR counter_key,
                                     SET (slug_key (encode_base62 counter)) (url request),
                                     SET (url_key (url request)) (encode_base62 counter)],
               data := (data s)(counter_key \<mapsto> VInt counter,
                                slug_key (encode_base62 counter) \<mapsto> VStr (url request),
                                url_key (url request) \<mapsto> VStr (encode_base62 counter))\<rparr>"
  using run
  unfolding shorten_url_def store_defs Let_def
  by (auto simp: truthy_def split: option.splits rvalue.splits if_splits)

lemma shorten_url_hit:
  "faults s (length (calls s)) = None \<Longrightarrow>
   data s (url_key (url request)) = Some (VStr sl) \<Longrightarrow> sl \<noteq> [] \<Longrightarrow>
   shorten_url request s =
     (Inr \<lparr>short_url = ''/'' @ sl, slug = sl, original_url = url request\<rparr>,
      s\<lparr>calls := calls s @ [GET (url_key (url request))]\<rparr>)"
  by (simp add: shorten_url_def redis_get_def truthy_def Let_def)

lemma redis_get_value:
  "faults s (length (calls s)) = None \<Longrightarrow> data s key = Some (VStr v) \<Longrightarrow>
   fst (redis_get key s) = Inr (Some v)"
  by (simp add: redis_get_def)

text \<open>
  The lookup takes an empty stored string for a miss, as the truth test of the source does:
  the handler goes on to the counter.
\<close>

lemma shorten_url_empty_slug:
  assumes "faults s (length (calls s)) = None"
      and "data s (url_key (url request)) = Some (VStr [])"
  shows "INCR counter_key \<in> set (calls (snd (shorten_url request s)))"
proof -
  obtain r s' where run: "shorten_url request s = (r, s')"
    by (cases "shorten_url request s")
  from run assms have "INCR counter_key \<in> set (calls s')"
    by (cases rule: shorten_url_cases) auto
  with run show ?thesis by simp
qed

subsection \<open>Invariants of reachable stores\<close>

text \<open>The counter, once created, is at least 1; a stored slug is a non-empty string.\<close>

lemma reachable_empty_store: "reachable (empty_store\<lparr>faults := f\<rparr>)"
  unfolding empty_store_def by (simp add: reachable.init)

lemma reachable_empty: "reachable empty_store"
  using reachable_empty_store [of Map.empty] by (simp add: empty_store_def)

lemma reachable_counter:
  "reachable s \<Longrightarrow>
   data s counter_key = None \<or> (\<exists>n. data s counter_key = Some (VInt n) \<and> 1 \<le> n)"
proof (induction rule: reachable.induct)
  case (init d c f)
  then show ?case by simp
next
  case (step s request)
  obtain r s' where run: "shorten_url request s = (r, s')"
    by (cases "shorten_url request s")
  from run step.IH have
    "data s' counter_key = None \<or> (\<exists>n. data s' counter_key = Some (VInt n) \<and> 1 \<le> n)"
    by (cases rule: shorten_url_cases) auto
  with run show ?case by simp
qed

lemma reachable_reverse:
  "reachable s \<Longrightarrow> data s (url_key u) = Some v \<Longrightarrow> \<exists>sl. v = VStr sl \<and> sl \<noteq> []"
proof (induction arbitrary: u v rule: reachable.induct)
  case (init d c f)
  then show ?case by simp
next
  case (step s request)
  obtain r s' where run: "shorten_url request s = (r, s')"
    by (cases "shorten_url request s")
  have ctr: "data s counter_key = None \<or> (\<exists>n. data s counter_key = Some (VInt n) \<and> 1 \<le> n)"
    by (rule reachable_counter [OF step.hyps])
  have old: "\<And>u v. data s (url_key u) = Some v \<Longrightarrow> \<exists>sl. v = VStr sl \<and> sl \<noteq> []"
    by (rule step.IH)
  from step.prems run have lookup: "data s' (url_key u) = Some v" by simp
  from run show ?case
  proof (cases rule: shorten_url_cases)
    case (minted counter)
    with ctr have "0 \<le> counter" by auto
    then have "encode_base62 counter \<noteq> []" by (rule encode_base62_nonempty)
    with minted lookup old [of u v] show ?thesis
      by (auto split: if_splits)
  qed (use lookup old [of u v] in \<open>auto split: if_splits\<close>)
qed

subsection \<open>The handler keeps the store consistent\<close>

lemma consistentD_counter:
  "consistent s \<Longrightarrow>
   data s counter_key = None \<or> (\<exists>n. data s counter_key = Some (VInt n) \<and> 1 \<le> n)"
  by (simp add: consistent_def)

lemma consistentD_forward:
  "consistent s \<Longrightarrow> data s (slug_key sl) = Some v \<Longrightarrow>
   \<exists>c u. 1 \<le> c \<and> c \<le> counter_value s \<and> sl = encode_base62 c \<and> v = VStr u"
  unfolding consistent_def by blast

lemma consistentD_reverse:
  "consistent s \<Longrightarrow> data s (url_key u) = Some v \<Longrightarrow>
   \<exists>c. 1 \<le> c \<and> c \<le> counter_value s \<and> v = VStr (encode_base62 c) \<and>
        data s (slug_key (encode_base62 c)) = Some (VStr u)"
  unfolding consistent_def by blast

lemma consistent_miss:
  assumes "consistent s"
      and "\<not> truthy (map_option value_string (data s (url_key u)))"
  shows "data s (url_key u) = None"
proof (cases "data s (url_key u)")
  case None
  then show ?thesis .
next
  case (Some v)
  then obtain c where "1 \<le> c" "v = VStr (encode_base62 c)"
    using consistentD_reverse [OF assms(1)] by blast
  moreover from this have "encode_base62 c \<noteq> []"
    by (simp add: encode_base62_nonempty)
  ultimately show ?thesis
    using assms(2) Some by (simp add: truthy_def)
qed

lemma consistent_fresh:
  assumes "consistent s"
      and "data s counter_key = None \<and> counter = 1 \<or>
           (\<exists>n. data s counter_key = Some (VInt n) \<and> counter = n + 1)"
  shows "counter = counter_value s + 1" and "1 \<le> counter"
    and "data s (slug_key (encode_base62 counter)) = None"
proof -
  show c: "counter = counter_value s + 1"
    using assms(2) by (auto simp: counter_value_def)
  show pos: "1 \<le> counter"
    using assms(2) consistentD_counter [OF assms(1)] by auto
  show "data s (slug_key (encode_base62 counter)) = None"
  proof (cases "data s (slug_key (encode_base62 counter))")
    case None
    then show ?thesis .
  next
    case (Some v)
    then obtain c' where c': "1 \<le> c'" "c' \<le> counter_value s"
      "encode_base62 counter = encode_base62 c'"
      using consistentD_forward [OF assms(1)] by blast
    then have "counter = c'"
      using pos by (intro encode_base62_inj) simp_all
    with c c' show ?thesis by simp
  qed
qed

lemma consistent_calls: "consistent (s\<lparr>calls := cs\<rparr>) = consistent s"
  by (simp add: consistent_def counter_value_def)

lemma consistent_counter:
  assumes "consistent s" and "c = counter_value s + 1"
  shows "consistent (s\<lparr>calls := cs, data := (data s)(counter_key \<mapsto> VInt c)\<rparr>)"
proof -
  have pos: "0 \<le> counter_value s"
    using consistentD_counter [OF assms(1)] by (auto simp: counter_value_def)
  have cv: "counter_value (s\<lparr>calls := cs, data := (data s)(counter_key \<mapsto> VInt c)\<rparr>) = c"
    by (simp add: counter_value_def)
  show ?thesis
    unfolding consistent_def cv
  proof (intro conjI allI impI)
    show "data (s\<lparr>calls := cs, data := (data s)(counter_key \<mapsto> VInt c)\<rparr>) counter_key = None \<or>
          (\<exists>n. data (s\<lparr>calls := cs, data := (data s)(counter_key \<mapsto> VInt c)\<rparr>) counter_key
                 = Some (VInt n) \<and> 1 \<le> n)"
      using pos assms(2) by simp
  next
    fix sl v
    assume "data (s\<lparr>calls := cs, data := (data s)(counter_key \<mapsto> VInt c)\<rparr>) (slug_key sl) = Some v"
    then have "data s (slug_key sl) = Some v" by simp
    then obtain c' u where "1 \<le> c'" "c' \<le> counter_value s" "sl = encode_base62 c'" "v = VStr u"
      using consistentD_forward [OF assms(1)] by blast
    then show "\<exists>c' u. 1 \<le> c' \<and> c' \<le> c \<and> sl = encode_base62 c' \<and> v = VStr u"
      using assms(2) by (intro exI [of _ c'] exI [of _ u]) simp
  next
    fix u v
    assume "data (s\<lparr>calls := cs, data := (data s)(counter_key \<mapsto> VInt c)\<rparr>) (url_key u) = Some v"
    then have "data s (url_key u) = Some v" by simp
    then obtain c' where "1 \<le> c'" "c' \<le> counter_value s" "v = VStr (encode_base62 c')"
      "data s (slug_key (encode_base62 c')) = Some (VStr u)"
      using consistentD_reverse [OF assms(1)] by blast
    then show "\<exists>c'. 1 \<le> c' \<and> c' \<le> c \<and> v = VStr (encode_base62 c') \<and>
            data (s\<lparr>calls := cs, data := (data s)(counter_key \<mapsto> VInt c)\<rparr>)
              (slug_key (encode_base62 c')) = Some (VStr u)"
      using assms(2) by (intro exI [of _ c']) simp
  qed
qed

lemma consistent_forward:
  assumes "consistent s" and "1 \<le> c" and "c \<le> counter_value s"
      and "\<And>c'. 1 \<le> c' \<Longrightarrow> c' \<le> counter_value s \<Longrightarrow>
             data s (slug_key (encode_base62 c')) \<noteq> None \<Longrightarrow> c' \<noteq> c"
  shows "consistent (s\<lparr>data := (data s)(slug_key (encode_base62 c) \<mapsto> VStr u0)\<rparr>)"
proof -
  let ?s = "s\<lparr>data := (data s)(slug_key (encode_base62 c) \<mapsto> VStr u0)\<rparr>"
  have cv: "counter_value ?s = counter_value s"
    by (simp add: counter_value_def)
  show ?thesis
    unfolding consistent_def cv
  proof (intro conjI allI impI)
    show "data ?s counter_key = None \<or> (\<exists>n. data ?s counter_key = Some (VInt n) \<and> 1 \<le> n)"
      using consistentD_counter [OF assms(1)] by simp
  next
    fix sl v
    assume a: "data ?s (slug_key sl) = Some v"
    show "\<exists>c' u. 1 \<le> c' \<and> c' \<le> counter_value s \<and> sl = encode_base62 c' \<and> v = VStr u"
    proof (cases "sl = encode_base62 c")
      case True
      with a have "v = VStr u0" by simp
      with True assms(2,3) show ?thesis by blast
    next
      case False
      with a have "data s (slug_key sl) = Some v" by simp
      then show ?thesis using consistentD_forward [OF assms(1)] by blast
    qed
  next
    fix u v
    assume "data ?s (url_key u) = Some v"
    then have "data s (url_key u) = Some v" by simp
    then obtain c' where c': "1 \<le> c'" "c' \<le> counter_value s" "v = VStr (encode_base62 c')"
      "data s (slug_key (encode_base62 c')) = Some (VStr u)"
      using consistentD_reverse [OF assms(1)] by blast
    then have "c' \<noteq> c" using assms(4) [of c'] by simp
    then have "encode_base62 c' \<noteq> encode_base62 c"
      using c'(1) assms(2) encode_base62_inj [of c' c] by auto
    with c' show "\<exists>c'. 1 \<le> c' \<and> c' \<le> counter_value s \<and> v = VStr (encode_base62 c') \<and>
            data ?s (slug_key (encode_base62 c')) = Some (VStr u)"
      by (intro exI [of _ c']) simp
  qed
qed

lemma consistent_reverse:
  assumes "consistent s" and "1 \<le> c" and "c \<le> counter_value s"
      and "data s (slug_key (encode_base62 c)) = Some (VStr u0)"
  shows "consistent (s\<lparr>data := (data s)(url_key u0 \<mapsto> VStr (encode_base62 c))\<rparr>)"
proof -
  let ?s = "s\<lparr>data := (data s)(url_key u0 \<mapsto> VStr (encode_base62 c))\<rparr>"
  have cv: "counter_value ?s = counter_value s"
    by (simp add: counter_value_def)
  show ?thesis
    unfolding consistent_def cv
  proof (intro conjI allI impI)
    show "data ?s counter_key = None \<or> (\<exists>n. data ?s counter_key = Some (VInt n) \<and> 1 \<le> n)"
      using consistentD_counter [OF assms(1)] by simp
  next
    fix sl v
    assume "data ?s (slug_key sl) = Some v"
    then have "data s (slug_key sl) = Some v" by simp
    then show "\<exists>c' u. 1 \<le> c' \<and> c' \<le> counter_value s \<and> sl = encode_base62 c' \<and> v = VStr u"
      using consistentD_forward [OF assms(1)] by blast
  next
    fix u v
    assume a: "data ?s (url_key u) = Some v"
    show "\<exists>c'. 1 \<le> c' \<and> c' \<le> counter_value s \<and> v = VStr (encode_base62 c') \<and>
            data ?s (slug_key (encode_base62 c')) = Some (VStr u)"
    proof (cases "u = u0")
      case True
      with a have "v = VStr (encode_base62 c)" by simp
      with True assms(2,3,4) show ?thesis by (intro exI [of _ c]) simp
    next
      case False
      with a have "data s (url_key u) = Some v" by simp
      then obtain c' where "1 \<le> c'" "c' \<le> counter_value s" "v = VStr (encode_base62 c')"
        "data s (slug_key (encode_base62 c')) = Some (VStr u)"
        using consistentD_reverse [OF assms(1)] by blast
      then show ?thesis by (intro exI [of _ c']) simp
    qed
  qed
qed

lemma counter_value_upd:
  "counter_value (s\<lparr>calls := cs, data := (data s)(counter_key \<mapsto> VInt c)\<rparr>) = c"
  by (simp add: counter_value_def)

lemma consistent_minted:
  assumes inv: "consistent s"
      and ctr: "data s counter_key = None \<and> c = 1 \<or>
                (\<exists>n. data s counter_key = Some (VInt n) \<and> c = n + 1)"
  shows "consistent (s\<lparr>calls := cs, data := (data s)(counter_key \<mapsto> VInt c)\<rparr>)"
    and "consistent (s\<lparr>calls := cs, data := (data s)(counter_key \<mapsto> VInt c,
                         slug_key (encode_base62 c) \<mapsto> VStr u)\<rparr>)"
    and "consistent (s\<lparr>calls := cs, data := (data s)(counter_key \<mapsto> VInt c,
                         slug_key (encode_base62 c) \<mapsto> VStr u,
                         url_key u \<mapsto> VStr (encode_base62 c))\<rparr>)"
proof -
  note fresh = consistent_fresh [OF inv ctr]
  let ?sc = "s\<lparr>calls := cs, data := (data s)(counter_key \<mapsto> VInt c)\<rparr>"
  let ?sf = "?sc\<lparr>data := (data ?sc)(slug_key (encode_base62 c) \<mapsto> VStr u)\<rparr>"
  let ?sr = "?sf\<lparr>data := (data ?sf)(url_key u \<mapsto> VStr (encode_base62 c))\<rparr>"
  show c1: "consistent ?sc"
    using inv fresh(1) by (rule consistent_counter)
  have cv: "counter_value ?sc = c" by (rule counter_value_upd)
  have c2: "consistent ?sf"
  proof (rule consistent_forward [OF c1 fresh(2)])
    show "c \<le> counter_value ?sc" by (simp add: cv)
  next
    fix c'
    assume "data ?sc (slug_key (encode_base62 c')) \<noteq> None"
    then have "data s (slug_key (encode_base62 c')) \<noteq> None" by simp
    with fresh(3) show "c' \<noteq> c" by auto
  qed
  have cvf: "c \<le> counter_value ?sf" by (simp add: counter_value_def)
  have fwd: "data ?sf (slug_key (encode_base62 c)) = Some (VStr u)" by simp
  have c3: "consistent ?sr"
    using c2 fresh(2) cvf fwd by (rule consistent_reverse)
  show "consistent (s\<lparr>calls := cs, data := (data s)(counter_key \<mapsto> VInt c,
                         slug_key (encode_base62 c) \<mapsto> VStr u)\<rparr>)"
    using c2 by simp
  show "consistent (s\<lparr>calls := cs, data := (data s)(counter_key \<mapsto> VInt c,
                         slug_key (encode_base62 c) \<mapsto> VStr u,
                         url_key u \<mapsto> VStr (encode_base62 c))\<rparr>)"
    using c3 by simp
qed

text \<open>
  A request leaves a consistent store consistent, keeps every entry of the two mappings,
  and when it returns a slug the reverse mapping holds that slug for its URL.
\<close>

lemma shorten_url_consistent:
  assumes inv: "consistent s" and run: "shorten_url request s = (r, s')"
  shows "consistent s'"
  using run
proof (cases rule: shorten_url_cases)
  case (get_failed msg)
  then show ?thesis using inv by (simp add: consistent_calls)
next
  case (existing v)
  then show ?thesis using inv by (simp add: consistent_calls)
next
  case (incr_failed e)
  then show ?thesis using inv by (simp add: consistent_calls)
next
  case (set_slug_failed counter msg)
  then show ?thesis using consistent_minted(1) [OF inv] by simp
next
  case (set_url_failed counter msg)
  then show ?thesis using consistent_minted(2) [OF inv] by simp
next
  case (minted counter)
  then show ?thesis using consistent_minted(3) [OF inv] by simp
qed

lemma shorten_url_keeps:
  assumes inv: "consistent s" and run: "shorten_url request s = (r, s')"
  shows "data s (url_key u) = Some v \<Longrightarrow> data s' (url_key u) = Some v"
    and "data s (slug_key sl) = Some v \<Longrightarrow> data s' (slug_key sl) = Some v"
proof -
  have "(data s (url_key u) = Some v \<longrightarrow> data s' (url_key u) = Some v) \<and>
        (data s (slug_key sl) = Some v \<longrightarrow> data s' (slug_key sl) = Some v)"
    using run
  proof (cases rule: shorten_url_cases)
    case (set_url_failed counter msg)
    note fresh = consistent_fresh [OF inv set_url_failed(4)]
    from set_url_failed fresh(3) show ?thesis by auto
  next
    case (minted counter)
    note fresh = consistent_fresh [OF inv minted(4)]
    have "data s (url_key (url request)) = None"
      using inv minted(2) by (rule consistent_miss)
    with minted fresh(3) show ?thesis by auto
  qed simp_all
  then show "data s (url_key u) = Some v \<Longrightarrow> data s' (url_key u) = Some v"
    and "data s (slug_key sl) = Some v \<Longrightarrow> data s' (slug_key sl) = Some v"
    by simp_all
qed

lemma shorten_url_records:
  assumes inv: "consistent s" and run: "shorten_url request s = (Inr a, s')"
  shows "data s' (url_key (url request)) = Some (VStr (slug a))"
  using run
proof (cases rule: shorten_url_cases)
  case (existing v)
  then obtain c where "v = VStr (encode_base62 c)"
    using consistentD_reverse [OF inv] by blast
  with existing show ?thesis by simp
next
  case (minted counter)
  then show ?thesis by simp
qed simp_all

lemma shorten_url_consistent_snd:
  "consistent s \<Longrightarrow> consistent (snd (shorten_url request s))"
  by (rule shorten_url_consistent [OF _ surjective_pairing])

lemma shorten_url_keeps_snd:
  "consistent s \<Longrightarrow> data s (url_key u) = Some v \<Longrightarrow>
   data (snd (shorten_url request s)) (url_key u) = Some v"
  by (rule shorten_url_keeps(1) [OF _ surjective_pairing])

lemma serve_consistent: "consistent s \<Longrightarrow> consistent (serve requests s)"
proof (induction requests arbitrary: s)
  case Nil
  then show ?case by simp
next
  case (Cons request requests)
  have "consistent (snd (shorten_url request s))"
    using Cons.prems by (rule shorten_url_consistent_snd)
  then show ?case using Cons.IH by simp
qed

lemma serve_keeps:
  "consistent s \<Longrightarrow> data s (url_key u) = Some v \<Longrightarrow> data (serve requests s) (url_key u) = Some v"
proof (induction requests arbitrary: s)
  case Nil
  then show ?case by simp
next
  case (Cons request requests)
  let ?s = "snd (shorten_url request s)"
  have "consistent ?s"
    using Cons.prems(1) by (rule shorten_url_consistent_snd)
  moreover have "data ?s (url_key u) = Some v"
    using Cons.prems by (rule shorten_url_keeps_snd)
  ultimately show ?case using Cons.IH by simp
qed

lemma reachable_consistent: "reachable s \<Longrightarrow> consistent s"
proof (induction rule: reachable.induct)
  case (init d c f)
  then show ?case by (simp add: consistent_def)
next
  case (step s request)
  then show ?case by (intro shorten_url_consistent_snd)
qed

subsection \<open>Sample runs\<close>

lemmas run_defs = shorten_url_def redis_get_def redis_set_def redis_incr_def
  get_next_counter_def truthy_def Let_def empty_store_def sample_a_def sample_b_def

lemma url_sample_a: "url sample_a = ''https://example.com/a''"
  by (simp add: sample_a_def)

lemma url_sample_b: "url sample_b = ''https://example.com/b''"
  by (simp add: sample_b_def)

lemma url_sample_c: "url sample_c = ''https://example.com/c''"
  by (simp add: sample_c_def)

lemma run_sample_a:
  "shorten_url sample_a empty_store =
     (Inr \<lparr>short_url = ''/1'', slug = ''1'', original_url = ''https://example.com/a''\<rparr>,
      \<lparr>data = [counter_key \<mapsto> VInt 1,
               slug_key ''1'' \<mapsto> VStr ''https://example.com/a'',
               url_key ''https://example.com/a'' \<mapsto> VStr ''1''],
        calls = [GET (url_key ''https://example.com/a''), INCR counter_key,
                 SET (slug_key ''1'') ''https://example.com/a'',
                 SET (url_key ''https://example.com/a'') ''1''],
        faults = Map.empty\<rparr>)"
  by (simp add: run_defs encode_base62_1)

lemma store_a_eq:
  "store_a =
      \<lparr>data = [counter_key \<mapsto> VInt 1,
               slug_key ''1'' \<mapsto> VStr ''https://example.com/a'',
               url_key ''https://example.com/a'' \<mapsto> VStr ''1''],
        calls = [GET (url_key ''https://example.com/a''), INCR counter_key,
                 SET (slug_key ''1'') ''https://example.com/a'',
                 SET (url_key ''https://example.com/a'') ''1''],
        faults = Map.empty\<rparr>"
  by (simp add: store_a_def run_sample_a)

lemma reachable_store_a: "reachable store_a"
  unfolding store_a_def using reachable_empty_store [of Map.empty]
  by (intro reachable.step) (simp add: empty_store_def)

lemma store_ab_eq:
  "store_ab =
      \<lparr>data = [slug_key ''1'' \<mapsto> VStr ''https://example.com/a'',
               url_key ''https://example.com/a'' \<mapsto> VStr ''1'',
               counter_key \<mapsto> VInt 2,
               slug_key ''2'' \<mapsto> VStr ''https://example.com/b'',
               url_key ''https://example.com/b'' \<mapsto> VStr ''2''],
        calls = [GET (url_key ''https://example.com/a''), INCR counter_key,
                 SET (slug_key ''1'') ''https://example.com/a'',
                 SET (url_key ''https://example.com/a'') ''1'',
                 GET (url_key ''https://example.com/b''), INCR counter_key,
                 SET (slug_key ''2'') ''https://example.com/b'',
                 SET (url_key ''https://example.com/b'') ''2''],
        faults = Map.empty\<rparr>"
  by (simp add: store_ab_def store_a_eq shorten_url_def redis_get_def redis_set_def
      redis_incr_def get_next_counter_def truthy_def Let_def url_sample_b encode_base62_2)

lemma run_sample_c:
  "shorten_url sample_c store_ab =
     (Inr \<lparr>short_url = ''/3'', slug = ''3'', original_url = ''https://example.com/c''\<rparr>,
      store_abc)"
  by (simp add: store_abc_def store_ab_eq shorten_url_def redis_get_def redis_set_def
      redis_incr_def get_next_counter_def truthy_def Let_def url_sample_c encode_base62_3)

lemma store_abc_ok: "faults store_abc (length (calls store_abc)) = None"
  by (simp add: store_abc_def store_ab_eq shorten_url_def redis_get_def redis_set_def
      redis_incr_def get_next_counter_def truthy_def Let_def url_sample_c)

subsection \<open>A URL that has a slug\<close>

text \<open>
  Claim C3. In a reachable store, a request for a URL that is present in the reverse
  mapping, with the lookup succeeding, returns the stored slug, and the store afterwards is
  the store before with one more entry in the log, the \<open>GET\<close>: the counter is not
  incremented and nothing is written. And when a request has returned a slug, the same
  request made again returns the same response, again with the \<open>GET\<close> alone.
\<close>

theorem shorten_url_existing:
  assumes "reachable s"
  shows "(data s (url_key (url request)) = Some v \<and> faults s (length (calls s)) = None \<longrightarrow>
            (\<exists>sl. v = VStr sl \<and>
               shorten_url request s =
                 (Inr \<lparr>short_url = ''/'' @ sl, slug = sl, original_url = url request\<rparr>,
                  s\<lparr>calls := calls s @ [GET (url_key (url request))]\<rparr>))) \<and>
         (shorten_url request s = (Inr r1, s1) \<and> faults s1 (length (calls s1)) = None \<longrightarrow>
            shorten_url request s1 =
              (Inr r1, s1\<lparr>calls := calls s1 @ [GET (url_key (url request))]\<rparr>))"
proof (intro conjI impI)
  assume a: "data s (url_key (url request)) = Some v \<and> faults s (length (calls s)) = None"
  then obtain sl where sl: "v = VStr sl" "sl \<noteq> []"
    using reachable_reverse [OF assms] by blast
  with a have "shorten_url request s =
          (Inr \<lparr>short_url = ''/'' @ sl, slug = sl, original_url = url request\<rparr>,
           s\<lparr>calls := calls s @ [GET (url_key (url request))]\<rparr>)"
    by (simp add: shorten_url_hit)
  with sl show "\<exists>sl. v = VStr sl \<and>
               shorten_url request s =
                 (Inr \<lparr>short_url = ''/'' @ sl, slug = sl, original_url = url request\<rparr>,
                  s\<lparr>calls := calls s @ [GET (url_key (url request))]\<rparr>)"
    by blast
next
  assume b: "shorten_url request s = (Inr r1, s1) \<and> faults s1 (length (calls s1)) = None"
  then have run: "shorten_url request s = (Inr r1, s1)" and ok: "faults s1 (length (calls s1)) = None"
    by simp_all
  have "reachable (snd (shorten_url request s))" using assms by (rule reachable.step)
  with run have r1: "reachable s1" by simp
  have ctr: "data s counter_key = None \<or> (\<exists>n. data s counter_key = Some (VInt n) \<and> 1 \<le> n)"
    by (rule reachable_counter [OF assms])
  have "\<exists>sl. data s1 (url_key (url request)) = Some (VStr sl) \<and> sl \<noteq> [] \<and>
          r1 = \<lparr>short_url = ''/'' @ sl, slug = sl, original_url = url request\<rparr>"
    using run
  proof (cases rule: shorten_url_cases)
    case (existing v)
    then obtain sl where "v = VStr sl" "sl \<noteq> []"
      using reachable_reverse [OF assms] by blast
    with existing show ?thesis by simp
  next
    case (minted counter)
    with ctr have "0 \<le> counter" by auto
    then have "encode_base62 counter \<noteq> []" by (rule encode_base62_nonempty)
    with minted show ?thesis by simp
  qed simp_all
  then obtain sl where "data s1 (url_key (url request)) = Some (VStr sl)" "sl \<noteq> []"
    "r1 = \<lparr>short_url = ''/'' @ sl, slug = sl, original_url = url request\<rparr>"
    by blast
  with ok show "shorten_url request s1 =
              (Inr r1, s1\<lparr>calls := calls s1 @ [GET (url_key (url request))]\<rparr>)"
    by (simp add: shorten_url_hit)
qed

theorem shorten_url_existing_witness:
  "reachable store_a \<and>
   data store_a (url_key (url sample_a)) = Some (VStr ''1'') \<and>
   faults store_a (length (calls store_a)) = None \<and>
   shorten_url sample_a store_a =
     (Inr \<lparr>short_url = ''/1'', slug = ''1'', original_url = url sample_a\<rparr>, store_a_read) \<and>
   faults store_a_read (length (calls store_a_read)) = None \<and>
   shorten_url sample_a store_a_read =
     (Inr \<lparr>short_url = ''/1'', slug = ''1'', original_url = url sample_a\<rparr>,
      store_a_read\<lparr>calls := calls store_a_read @ [GET (url_key (url sample_a))]\<rparr>)"
proof -
  let ?r = "\<lparr>short_url = ''/1'', slug = ''1'', original_url = url sample_a\<rparr>"
  note both = shorten_url_existing [OF reachable_store_a, of sample_a "VStr ''1''" ?r store_a_read]
  have ok: "faults store_a (length (calls store_a)) = None"
    by (simp add: store_a_eq)
  have present: "data store_a (url_key (url sample_a)) = Some (VStr ''1'')"
    by (simp add: store_a_eq url_sample_a)
  have "\<exists>sl. VStr ''1'' = VStr sl \<and>
          shorten_url sample_a store_a =
            (Inr \<lparr>short_url = ''/'' @ sl, slug = sl, original_url = url sample_a\<rparr>,
             store_a\<lparr>calls := calls store_a @ [GET (url_key (url sample_a))]\<rparr>)"
    by (rule mp [OF conjunct1 [OF both]]) (rule conjI [OF present ok])
  then obtain sl where sl: "VStr ''1'' = VStr sl"
    and run: "shorten_url sample_a store_a =
            (Inr \<lparr>short_url = ''/'' @ sl, slug = sl, original_url = url sample_a\<rparr>,
             store_a\<lparr>calls := calls store_a @ [GET (url_key (url sample_a))]\<rparr>)"
    by (elim exE conjE)
  from sl have "sl = ''1''" by simp
  with run have hit: "shorten_url sample_a store_a = (Inr ?r, store_a_read)"
    by (simp add: store_a_read_def)
  have ok': "faults store_a_read (length (calls store_a_read)) = None"
    by (simp add: store_a_read_def store_a_eq)
  have again: "shorten_url sample_a store_a_read =
      (Inr ?r, store_a_read\<lparr>calls := calls store_a_read @ [GET (url_key (url sample_a))]\<rparr>)"
    by (rule mp [OF conjunct2 [OF both]]) (rule conjI [OF hit ok'])
  show ?thesis
    by (intro conjI reachable_store_a present ok hit ok' again)
qed

subsection \<open>Distinct URLs\<close>

text \<open>
  Claim C7. Take a reachable store, a request that returns a slug, any sequence of further
  requests, a request for a different URL that returns a slug, and again any sequence of
  further requests. The two slugs differ, and reading the forward mapping at each of them
  in the last store returns the URL that was submitted for it. This covers two URLs that
  were both absent before, minted with any number of requests in between, and it does not
  need either URL to be absent.
\<close>

theorem distinct_urls_distinct_slugs:
  assumes reach: "reachable s"
      and diff: "url rq1 \<noteq> url rq2"
      and run1: "shorten_url rq1 s = (Inr a1, s1)"
      and run2: "shorten_url rq2 (serve between s1) = (Inr a2, s2)"
  shows "slug a1 \<noteq> slug a2 \<and>
         (faults (serve after s2) (length (calls (serve after s2))) = None \<longrightarrow>
            fst (redis_get (slug_key (slug a1)) (serve after s2)) = Inr (Some (url rq1)) \<and>
            fst (redis_get (slug_key (slug a2)) (serve after s2)) = Inr (Some (url rq2)))"
proof -
  let ?t = "serve between s1" and ?w = "serve after s2"
  have inv: "consistent s" by (rule reachable_consistent [OF reach])
  have inv1: "consistent s1" by (rule shorten_url_consistent [OF inv run1])
  have invt: "consistent ?t" by (rule serve_consistent [OF inv1])
  have inv2: "consistent s2" by (rule shorten_url_consistent [OF invt run2])
  have invw: "consistent ?w" by (rule serve_consistent [OF inv2])
  have "data s1 (url_key (url rq1)) = Some (VStr (slug a1))"
    by (rule shorten_url_records [OF inv run1])
  then have "data ?t (url_key (url rq1)) = Some (VStr (slug a1))"
    by (rule serve_keeps [OF inv1])
  then have "data s2 (url_key (url rq1)) = Some (VStr (slug a1))"
    by (rule shorten_url_keeps(1) [OF invt run2])
  then have rev1: "data ?w (url_key (url rq1)) = Some (VStr (slug a1))"
    by (rule serve_keeps [OF inv2])
  have "data s2 (url_key (url rq2)) = Some (VStr (slug a2))"
    by (rule shorten_url_records [OF invt run2])
  then have rev2: "data ?w (url_key (url rq2)) = Some (VStr (slug a2))"
    by (rule serve_keeps [OF inv2])
  have fwd1: "data ?w (slug_key (slug a1)) = Some (VStr (url rq1))"
    using consistentD_reverse [OF invw rev1] by auto
  have fwd2: "data ?w (slug_key (slug a2)) = Some (VStr (url rq2))"
    using consistentD_reverse [OF invw rev2] by auto
  have "slug a1 \<noteq> slug a2"
  proof
    assume "slug a1 = slug a2"
    with fwd1 fwd2 have "url rq1 = url rq2" by simp
    with diff show False by simp
  qed
  then show ?thesis
    using fwd1 fwd2 by (simp add: redis_get_value)
qed

theorem distinct_urls_distinct_slugs_witness:
  "reachable empty_store \<and> url sample_a \<noteq> url sample_c \<and>
   shorten_url sample_a empty_store =
     (Inr \<lparr>short_url = ''/1'', slug = ''1'', original_url = ''https://example.com/a''\<rparr>,
      store_a) \<and>
   shorten_url sample_c (serve [sample_b] store_a) =
     (Inr \<lparr>short_url = ''/3'', slug = ''3'', original_url = ''https://example.com/c''\<rparr>,
      store_abc) \<and>
   faults (serve [] store_abc) (length (calls (serve [] store_abc))) = None \<and>
   fst (redis_get (slug_key ''1'') (serve [] store_abc)) = Inr (Some (url sample_a)) \<and>
   fst (redis_get (slug_key ''3'') (serve [] store_abc)) = Inr (Some (url sample_c))"
proof -
  let ?a1 = "\<lparr>short_url = ''/1'', slug = ''1'', original_url = ''https://example.com/a''\<rparr>"
  let ?a2 = "\<lparr>short_url = ''/3'', slug = ''3'', original_url = ''https://example.com/c''\<rparr>"
  have diff: "url sample_a \<noteq> url sample_c"
    by (simp add: url_sample_a url_sample_c)
  have run1: "shorten_url sample_a empty_store = (Inr ?a1, store_a)"
    by (simp add: run_sample_a store_a_eq)
  have between: "serve [sample_b] store_a = store_ab"
    by (simp add: store_ab_def)
  have run2: "shorten_url sample_c (serve [sample_b] store_a) = (Inr ?a2, store_abc)"
    unfolding between by (rule run_sample_c)
  have ok: "faults (serve [] store_abc) (length (calls (serve [] store_abc))) = None"
    using store_abc_ok by simp
  note main = distinct_urls_distinct_slugs [OF reachable_empty diff run1 run2, of "[]"]
  have "fst (redis_get (slug_key (slug ?a1)) (serve [] store_abc)) = Inr (Some (url sample_a)) \<and>
        fst (redis_get (slug_key (slug ?a2)) (serve [] store_abc)) = Inr (Some (url sample_c))"
    by (rule mp [OF conjunct2 [OF main] ok])
  then have reads:
    "fst (redis_get (slug_key ''1'') (serve [] store_abc)) = Inr (Some (url sample_a))"
    "fst (redis_get (slug_key ''3'') (serve [] store_abc)) = Inr (Some (url sample_c))"
    by simp_all
  show ?thesis
    by (intro conjI reachable_empty diff run1 run2 ok reads)
qed

subsection \<open>Store errors\<close>

text \<open>
  A call that is scheduled to fail ends the request with its message, and is the last call
  of the request.
\<close>

lemma scheduled_fault_ends_request:
  assumes "shorten_url request s = (r, s')"
      and "length (calls s) \<le> k" and "k < length (calls s')"
      and "faults s k = Some msg"
  shows "r = Inl (StoreUnavailable msg) \<and> length (calls s') = Suc k"
proof -
  let ?n = "length (calls s)"
  from assms(1) show ?thesis
  proof (cases rule: shorten_url_cases)
    case (get_failed m)
    with assms(2,3) have "k = ?n" by simp
    with get_failed assms(4) show ?thesis by simp
  next
    case (existing v)
    with assms(2,3) have "k = ?n" by simp
    with existing assms(4) show ?thesis by simp
  next
    case (incr_failed e)
    with assms(2,3) have "k = ?n \<or> k = Suc ?n" by auto
    with incr_failed assms(4) show ?thesis by auto
  next
    case (set_slug_failed counter m)
    with assms(2,3) have "k = ?n \<or> k = Suc ?n \<or> k = Suc (Suc ?n)" by auto
    with set_slug_failed assms(4) show ?thesis by auto
  next
    case (set_url_failed counter m)
    with assms(2,3) have "k = ?n \<or> k = Suc ?n \<or> k = Suc (Suc ?n) \<or> k = Suc (Suc (Suc ?n))"
      by auto
    with set_url_failed assms(4) show ?thesis by auto
  next
    case (minted counter)
    with assms(2,3) have "k = ?n \<or> k = Suc ?n \<or> k = Suc (Suc ?n) \<or> k = Suc (Suc (Suc ?n))"
      by auto
    with minted assms(4) show ?thesis by auto
  qed
qed

text \<open>
  Claim C8. Whatever error a store call returns, for whatever reason, is the result of the
  request, unchanged, and the store is left as that call left it: the error of \<open>INCR\<close>
  is the result of \<^verbatim>\<open>get_next_counter\<close>; the error of the lookup \<open>GET\<close>, of the
  \<open>INCR\<close> after a miss, of the \<open>SET\<close> of the forward mapping and of the \<open>SET\<close> of the
  reverse mapping is the result of the handler. No later call is made and no value stands in
  for the one the failed call did not give.
\<close>

theorem store_error_propagates:
  "(redis_incr counter_key s = (Inl e, s1) \<longrightarrow> get_next_counter s = (Inl e, s1)) \<and>
   (redis_get (url_key (url request)) s = (Inl e, s1) \<longrightarrow>
      shorten_url request s = (Inl e, s1)) \<and>
   (redis_get (url_key (url request)) s = (Inr existing_slug, s1) \<and> \<not> truthy existing_slug \<longrightarrow>
      (redis_incr counter_key s1 = (Inl e, s2) \<longrightarrow> shorten_url request s = (Inl e, s2)) \<and>
      (redis_incr counter_key s1 = (Inr counter, s2) \<longrightarrow>
         (redis_set (slug_key (encode_base62 counter)) (url request) s2 = (Inl e, s3) \<longrightarrow>
            shorten_url request s = (Inl e, s3)) \<and>
         (redis_set (slug_key (encode_base62 counter)) (url request) s2 = (Inr ok, s3) \<and>
          redis_set (url_key (url request)) (encode_base62 counter) s3 = (Inl e, s4) \<longrightarrow>
            shorten_url request s = (Inl e, s4))))"
  by (simp add: shorten_url_def get_next_counter_def Let_def)

theorem store_error_propagates_witness:
  "redis_incr counter_key store_text_counter =
     (Inl (StoreUnavailable ''ERR value is not an integer or out of range''),
      snd (redis_incr counter_key store_text_counter)) \<and>
   get_next_counter store_text_counter =
     (Inl (StoreUnavailable ''ERR value is not an integer or out of range''),
      snd (redis_incr counter_key store_text_counter)) \<and>
   redis_get (url_key (url sample_a)) (store_failing 0) =
     (Inl (StoreUnavailable ''timeout''), snd (redis_get (url_key (url sample_a)) (store_failing 0))) \<and>
   shorten_url sample_a (store_failing 0) =
     (Inl (StoreUnavailable ''timeout''), snd (redis_get (url_key (url sample_a)) (store_failing 0))) \<and>
   redis_get (url_key (url sample_a)) store_text_counter =
     (Inr None, snd (redis_get (url_key (url sample_a)) store_text_counter)) \<and>
   \<not> truthy None \<and>
   redis_incr counter_key (snd (redis_get (url_key (url sample_a)) store_text_counter)) =
     (Inl (StoreUnavailable ''ERR value is not an integer or out of range''),
      snd (redis_incr counter_key (snd (redis_get (url_key (url sample_a)) store_text_counter)))) \<and>
   shorten_url sample_a store_text_counter =
     (Inl (StoreUnavailable ''ERR value is not an integer or out of range''),
      snd (redis_incr counter_key (snd (redis_get (url_key (url sample_a)) store_text_counter)))) \<and>
   redis_get (url_key (url sample_a)) (store_failing 3) = (Inr None, after_get 3) \<and>
   redis_incr counter_key (after_get 3) = (Inr 1, after_incr 3) \<and>
   redis_set (slug_key (encode_base62 1)) (url sample_a) (after_incr 3) = (Inr (), after_set 3) \<and>
   redis_set (url_key (url sample_a)) (encode_base62 1) (after_set 3) =
     (Inl (StoreUnavailable ''timeout''),
      snd (redis_set (url_key (url sample_a)) (encode_base62 1) (after_set 3))) \<and>
   shorten_url sample_a (store_failing 3) =
     (Inl (StoreUnavailable ''timeout''),
      snd (redis_set (url_key (url sample_a)) (encode_base62 1) (after_set 3))) \<and>
   redis_set (slug_key (encode_base62 1)) (url sample_a) (after_incr 2) =
     (Inl (StoreUnavailable ''timeout''), after_set 2) \<and>
   shorten_url sample_a (store_failing 2) = (Inl (StoreUnavailable ''timeout''), after_set 2)"
proof -
  let ?K = "url_key (url sample_a)"
  let ?E = "StoreUnavailable ''ERR value is not an integer or out of range''"
  let ?T = "StoreUnavailable ''timeout''"
  let ?g = "snd (redis_get ?K store_text_counter)"
  have i0: "redis_incr counter_key store_text_counter
              = (Inl ?E, snd (redis_incr counter_key store_text_counter))"
    by (simp add: redis_incr_def store_text_counter_def empty_store_def)
  have c0: "get_next_counter store_text_counter
              = (Inl ?E, snd (redis_incr counter_key store_text_counter))"
    using store_error_propagates
      [where s = store_text_counter and e = ?E
         and ?s1.0 = "snd (redis_incr counter_key store_text_counter)"] i0
    by simp
  have g1: "redis_get ?K (store_failing 0) = (Inl ?T, snd (redis_get ?K (store_failing 0)))"
    by (simp add: redis_get_def store_failing_def empty_store_def)
  have c1: "shorten_url sample_a (store_failing 0) = (Inl ?T, snd (redis_get ?K (store_failing 0)))"
    using store_error_propagates
      [where s = "store_failing 0" and e = ?T and request = sample_a
         and ?s1.0 = "snd (redis_get ?K (store_failing 0))"] g1
    by simp
  have g2: "redis_get ?K store_text_counter = (Inr None, ?g)"
    by (simp add: redis_get_def store_text_counter_def empty_store_def)
  have t2: "\<not> truthy None"
    by (simp add: truthy_def)
  have i2: "redis_incr counter_key ?g = (Inl ?E, snd (redis_incr counter_key ?g))"
    by (simp add: redis_incr_def redis_get_def store_text_counter_def empty_store_def)
  have c2: "shorten_url sample_a store_text_counter = (Inl ?E, snd (redis_incr counter_key ?g))"
    using store_error_propagates
      [where s = store_text_counter and e = ?E and request = sample_a
         and existing_slug = None and ?s1.0 = ?g
         and ?s2.0 = "snd (redis_incr counter_key ?g)"] g2 t2 i2
    by simp
  have g3: "redis_get ?K (store_failing k) = (Inr None, after_get k)" if "0 < k" for k
    using that by (simp add: after_get_def redis_get_def store_failing_def empty_store_def)
  have i3: "redis_incr counter_key (after_get k) = (Inr 1, after_incr k)" if "1 < k" for k
    using that
    by (simp add: after_incr_def after_get_def redis_incr_def redis_get_def store_failing_def
        empty_store_def)
  have s3: "redis_set (slug_key (encode_base62 1)) (url sample_a) (after_incr 3)
              = (Inr (), after_set 3)"
    by (simp add: after_set_def after_incr_def after_get_def redis_set_def redis_incr_def
        redis_get_def store_failing_def empty_store_def)
  have u3: "redis_set ?K (encode_base62 1) (after_set 3)
              = (Inl ?T, snd (redis_set ?K (encode_base62 1) (after_set 3)))"
    by (simp add: after_set_def after_incr_def after_get_def redis_set_def redis_incr_def
        redis_get_def store_failing_def empty_store_def)
  have c3: "shorten_url sample_a (store_failing 3)
              = (Inl ?T, snd (redis_set ?K (encode_base62 1) (after_set 3)))"
    using store_error_propagates
      [where s = "store_failing 3" and e = ?T and request = sample_a
         and existing_slug = None and ?s1.0 = "after_get 3" and counter = 1
         and ?s2.0 = "after_incr 3" and ?s3.0 = "after_set 3" and ok = "()"
         and ?s4.0 = "snd (redis_set ?K (encode_base62 1) (after_set 3))"]
      g3 [of 3] t2 i3 [of 3] s3 u3
    by simp
  have s4: "redis_set (slug_key (encode_base62 1)) (url sample_a) (after_incr 2)
              = (Inl ?T, after_set 2)"
    by (simp add: after_set_def after_incr_def after_get_def redis_set_def redis_incr_def
        redis_get_def store_failing_def empty_store_def)
  have c4: "shorten_url sample_a (store_failing 2) = (Inl ?T, after_set 2)"
    using store_error_propagates
      [where s = "store_failing 2" and e = ?T and request = sample_a
         and existing_slug = None and ?s1.0 = "after_get 2" and counter = 1
         and ?s2.0 = "after_incr 2" and ?s3.0 = "after_set 2"]
      g3 [of 2] t2 i3 [of 2] s4
    by simp
  show ?thesis
    by (intro conjI i0 c0 g1 c1 g2 t2 i2 c2 g3 i3 s3 u3 c3 s4 c4) simp_all
qed

subsection \<open>Key namespaces\<close>

text \<open>
  Claim C9. Every call a request issues is on a key under the prefix of the service: the
  \<open>GET\<close> on the URL key of the request, the \<open>INCR\<close> on the one counter key, a \<open>SET\<close> of
  the URL on a slug key or of a slug on the URL key. The three families share the prefix,
  and no slug key is a URL key, and neither is the counter key.
\<close>

theorem store_keys_namespaced:
  "(shorten_url request s = (r, s') \<longrightarrow>
      (\<exists>ops. calls s' = calls s @ ops \<and>
         (\<forall>op \<in> set ops.
            prefix ''shortify:'' (op_key op) \<and>
            (op = GET (url_key (url request)) \<or> op = INCR counter_key \<or>
             (\<exists>sl. op = SET (slug_key sl) (url request) \<or>
                   op = SET (url_key (url request)) sl))))) \<and>
   prefix ''shortify:'' (slug_key a) \<and> prefix ''shortify:'' (url_key b) \<and>
   prefix ''shortify:'' counter_key \<and>
   slug_key a \<noteq> url_key b \<and> slug_key a \<noteq> counter_key \<and> url_key b \<noteq> counter_key"
proof (intro conjI impI)
  assume run: "shorten_url request s = (r, s')"
  then show "\<exists>ops. calls s' = calls s @ ops \<and>
         (\<forall>op \<in> set ops.
            prefix ''shortify:'' (op_key op) \<and>
            (op = GET (url_key (url request)) \<or> op = INCR counter_key \<or>
             (\<exists>sl. op = SET (slug_key sl) (url request) \<or>
                   op = SET (url_key (url request)) sl)))"
    by (cases rule: shorten_url_cases) auto
qed simp_all

theorem store_keys_namespaced_witness:
  "shorten_url sample_a empty_store = (fst (shorten_url sample_a empty_store), store_a) \<and>
   (\<exists>ops. calls store_a = calls empty_store @ ops \<and>
      (\<forall>op \<in> set ops. prefix ''shortify:'' (op_key op)))"
proof -
  have run: "shorten_url sample_a empty_store = (fst (shorten_url sample_a empty_store), store_a)"
    by (simp add: store_a_def)
  from store_keys_namespaced [of sample_a empty_store _ store_a] run
  have "\<exists>ops. calls store_a = calls empty_store @ ops \<and>
         (\<forall>op \<in> set ops.
            prefix ''shortify:'' (op_key op) \<and>
            (op = GET (url_key (url sample_a)) \<or> op = INCR counter_key \<or>
             (\<exists>sl. op = SET (slug_key sl) (url sample_a) \<or>
                   op = SET (url_key (url sample_a)) sl)))"
    by (rule mp [OF conjunct1])
  then obtain ops where ops: "calls store_a = calls empty_store @ ops"
    and keys: "\<forall>op \<in> set ops.
            prefix ''shortify:'' (op_key op) \<and>
            (op = GET (url_key (url sample_a)) \<or> op = INCR counter_key \<or>
             (\<exists>sl. op = SET (slug_key sl) (url sample_a) \<or>
                   op = SET (url_key (url sample_a)) sl))"
    by (elim exE conjE)
  from keys have "\<forall>op \<in> set ops. prefix ''shortify:'' (op_key op)"
    by (intro ballI) (elim ballE conjE, assumption, simp)
  with ops run show ?thesis by (intro conjI exI [of _ ops])
qed

end
